theory Spec2Isabelle
  imports Main "HOL-Library.Word" "HOL-Library.Monad_Syntax"
begin

section \<open>Integer ranges (range.hpp)\<close>

text \<open>
  \<open>Range<IntegerType>\<close> is modelled over \<open>'a word\<close>, the machine integers of
  \<open>LENGTH('a)\<close> bits. The step count \<open>n\<close> of \<open>operator+=\<close> and \<open>operator-=\<close> is a
  \<open>std::size_t\<close>. In \<open>_val += n*_pace\<close> the product and the sum are computed in the
  common type of \<open>std::size_t\<close> and \<open>IntegerType\<close> and the result is converted back
  to \<open>IntegerType\<close>; modulo \<open>2 ^ LENGTH('a)\<close> that is \<open>_val + ucast n * _pace\<close>,
  for signed and unsigned \<open>IntegerType\<close> alike. For an \<open>IntegerType\<close> no wider than
  \<open>std::size_t\<close> the common type is unsigned, so the arithmetic wraps around for
  \<open>int\<close> as it does for \<open>std::size_t\<close>.
\<close>

text \<open>\<open>std::size_t\<close> is taken to be 64 bits wide.\<close>

type_synonym size_t = "64 word"

text \<open>The records are polymorphic in \<open>IntegerType\<close>; every operation uses them at a word type.\<close>

record 'i Iterator =
  val :: "'i"
  pace :: "'i"

record 'i Range =
  r_start :: "'i"
  r_end :: "'i"
  r_pace :: "'i"

text \<open>\<open>Iterator(IntegerType val, IntegerType pace = 1)\<close>\<close>

definition Iterator :: "'a::len word \<Rightarrow> 'a word \<Rightarrow> 'a word Iterator" where
  "Iterator v p = \<lparr>val = v, pace = p\<rparr>"

text \<open>\<open>IntegerType operator*() const {return this->_val;}\<close>\<close>

definition Iterator_deref :: "'a::len word Iterator \<Rightarrow> 'a word" where
  "Iterator_deref it = val it"

text \<open>\<open>Iterator& operator+=(const std::size_t n) {_val += n*_pace; return *this;}\<close>\<close>

definition Iterator_add :: "size_t \<Rightarrow> 'a::len word Iterator \<Rightarrow> 'a word Iterator" where
  "Iterator_add n it = it\<lparr>val := val it + ucast n * pace it\<rparr>"

text \<open>\<open>Iterator& operator++() {return (*this) += 1;}\<close>\<close>

definition Iterator_inc :: "'a::len word Iterator \<Rightarrow> 'a word Iterator" where
  "Iterator_inc it = Iterator_add 1 it"

text \<open>
  \<open>Iterator operator++(int) {Iterator tmp = *this; ++(*this); return tmp;}\<close>:
  the returned copy first, the updated operand second.
\<close>

definition Iterator_post_inc :: "'a::len word Iterator \<Rightarrow> 'a word Iterator \<times> 'a word Iterator" where
  "Iterator_post_inc it = (let tmp = it in (tmp, Iterator_inc it))"

text \<open>\<open>Iterator& operator-=(const std::size_t n) {_val -= n*_pace; return *this;}\<close>\<close>

definition Iterator_sub :: "size_t \<Rightarrow> 'a::len word Iterator \<Rightarrow> 'a word Iterator" where
  "Iterator_sub n it = it\<lparr>val := val it - ucast n * pace it\<rparr>"

text \<open>\<open>Iterator& operator--() {return *this -= 1;}\<close>\<close>

definition Iterator_dec :: "'a::len word Iterator \<Rightarrow> 'a word Iterator" where
  "Iterator_dec it = Iterator_sub 1 it"

text \<open>\<open>Iterator operator--(int) {Iterator tmp = *this; --(*this); return tmp;}\<close>\<close>

definition Iterator_post_dec :: "'a::len word Iterator \<Rightarrow> 'a word Iterator \<times> 'a word Iterator" where
  "Iterator_post_dec it = (let tmp = it in (tmp, Iterator_dec it))"

text \<open>
  \<open>bool operator==(const Iterator& o) const {return _val == o._val;}\<close> and
  \<open>bool operator!=(const Iterator& o) const {return ! (*this == o);}\<close>
\<close>

definition Iterator_eq :: "'a::len word Iterator \<Rightarrow> 'a word Iterator \<Rightarrow> bool" where
  "Iterator_eq a b \<longleftrightarrow> val a = val b"

definition Iterator_ne :: "'a::len word Iterator \<Rightarrow> 'a word Iterator \<Rightarrow> bool" where
  "Iterator_ne a b \<longleftrightarrow> \<not> Iterator_eq a b"

text \<open>
  The constructor \<open>Range(start, end, pace)\<close> and the factories
  \<open>range(start, end, pace)\<close>, \<open>range(end)\<close> and \<open>iter_range(it)\<close>.
\<close>

definition Range_ctor :: "'a::len word \<Rightarrow> 'a word \<Rightarrow> 'a word \<Rightarrow> 'a word Range" where
  "Range_ctor s e p = \<lparr>r_start = s, r_end = e, r_pace = p\<rparr>"

definition range3 :: "'a::len word \<Rightarrow> 'a word \<Rightarrow> 'a word \<Rightarrow> 'a word Range" where
  "range3 s e p = Range_ctor s e p"

definition range1 :: "'a::len word \<Rightarrow> 'a word Range" where
  "range1 e = Range_ctor 0 e 1"

definition iter_range :: "'b list \<Rightarrow> 'a::len word Range" where
  "iter_range xs = Range_ctor 0 (of_nat (length xs)) 1"

text \<open>\<open>begin()\<close>, \<open>end()\<close>, \<open>rbegin()\<close> (\<open>return --end();\<close>) and \<open>rend()\<close> (\<open>return --begin();\<close>).\<close>

definition Range_begin :: "'a::len word Range \<Rightarrow> 'a word Iterator" where
  "Range_begin r = Iterator (r_start r) (r_pace r)"

definition Range_end :: "'a::len word Range \<Rightarrow> 'a word Iterator" where
  "Range_end r = Iterator (r_end r) (r_pace r)"

definition Range_rbegin :: "'a::len word Range \<Rightarrow> 'a word Iterator" where
  "Range_rbegin r = Iterator_dec (Range_end r)"

definition Range_rend :: "'a::len word Range \<Rightarrow> 'a word Iterator" where
  "Range_rend r = Iterator_dec (Range_begin r)"

text \<open>
  The loop that drives an iterator pair,
  \<open>for (it = first; it != sentinel; ++it) use(*it);\<close>, collecting the values it
  dereferences. The loop need not stop: \<open>None\<close> is a loop that runs forever.
\<close>

partial_function (option) Iterator_for :: "'a::len word Iterator \<Rightarrow> 'a word Iterator \<Rightarrow> 'a word list option" where
  "Iterator_for it sentinel =
     (if Iterator_ne it sentinel
      then do { vs \<leftarrow> Iterator_for (Iterator_inc it) sentinel; Some (Iterator_deref it # vs) }
      else Some [])"

text \<open>The range-based for loop over a range: \<open>for (auto v : r)\<close>.\<close>

definition Range_for :: "'a::len word Range \<Rightarrow> 'a word list option" where
  "Range_for r = Iterator_for (Range_begin r) (Range_end r)"

declare Iterator_for.simps [code]

text \<open>
  The same loop driven backwards, \<open>for (it = first; it != sentinel; --it) use(*it);\<close>.
\<close>

partial_function (option) Iterator_for_down :: "'a::len word Iterator \<Rightarrow> 'a word Iterator \<Rightarrow> 'a word list option" where
  "Iterator_for_down it sentinel =
     (if Iterator_ne it sentinel
      then do { vs \<leftarrow> Iterator_for_down (Iterator_dec it) sentinel; Some (Iterator_deref it # vs) }
      else Some [])"

declare Iterator_for_down.simps [code]

text \<open>
  The members of \<open>Iterator\<close> by name: \<open>_val\<close> and \<open>_pace\<close>. An expression that names
  any other member of the object is ill-formed and has no value.
\<close>

definition Iterator_member :: "string \<Rightarrow> 'a::len word Iterator \<Rightarrow> 'a word option" where
  "Iterator_member name it =
     (if name = ''_val'' then Some (val it)
      else if name = ''_pace'' then Some (pace it)
      else None)"

text \<open>
  \<open>class Const_Iterator : public Iterator\<close>, with
  \<open>const IntegerType& operator*() const {return this->val;}\<close>. The declaration hides
  both \<open>operator*\<close> of the base class, so it is the one every dereference of a
  \<open>Const_Iterator\<close> calls.
\<close>

definition Const_Iterator_deref :: "'a::len word Iterator \<Rightarrow> 'a word option" where
  "Const_Iterator_deref it = Iterator_member ''val'' it"


section \<open>Zipped sequences (zip.hpp)\<close>

subsection \<open>The wrapped sequences\<close>

text \<open>
  \<open>zip\<close> wraps sequences that the caller owns and holds references to them. A store
  maps the address of a sequence to its elements. The iterator of a sequence is a
  position in it: \<open>begin()\<close> is position 0, \<open>end()\<close> is the length, \<open>++\<close>, \<open>--\<close> and
  \<open>+ n\<close> move the position, and \<open>*\<close> yields a reference to the element there.
  Dereferencing outside the sequence is undefined; the model reports it as an error.
\<close>

type_synonym addr = nat

type_synonym 'a store = "addr \<Rightarrow> 'a list"

record seq_iterator =
  cont :: addr
  pos :: int

type_synonym ref = "addr \<times> nat"

datatype error = OutOfRange

definition seq_begin :: "addr \<Rightarrow> seq_iterator" where
  "seq_begin c = \<lparr>cont = c, pos = 0\<rparr>"

definition seq_end :: "'a store \<Rightarrow> addr \<Rightarrow> seq_iterator" where
  "seq_end h c = \<lparr>cont = c, pos = int (length (h c))\<rparr>"

text \<open>
  \<open>it + n\<close> with \<open>n\<close> a \<open>std::size_t\<close>: \<open>operator+\<close> of the iterator takes its signed
  \<open>difference_type\<close>, 64 bits wide as \<open>std::size_t\<close> is, so the \<open>std::size_t\<close> is
  converted first and the offset is its two's-complement reading: \<open>n\<close> below
  \<open>2 ^ 63\<close>, and the negative \<open>n - 2 ^ 64\<close> from there on.
\<close>

definition seq_plus :: "seq_iterator \<Rightarrow> size_t \<Rightarrow> seq_iterator" where
  "seq_plus s n = s\<lparr>pos := pos s + sint n\<rparr>"


definition seq_eq :: "seq_iterator \<Rightarrow> seq_iterator \<Rightarrow> bool" where
  "seq_eq s t \<longleftrightarrow> cont s = cont t \<and> pos s = pos t"

definition seq_ne :: "seq_iterator \<Rightarrow> seq_iterator \<Rightarrow> bool" where
  "seq_ne s t \<longleftrightarrow> \<not> seq_eq s t"

definition seq_valid :: "'a store \<Rightarrow> seq_iterator \<Rightarrow> bool" where
  "seq_valid h s \<longleftrightarrow> 0 \<le> pos s \<and> pos s < int (length (h (cont s)))"

definition seq_deref :: "'a store \<Rightarrow> seq_iterator \<Rightarrow> error + ref" where
  "seq_deref h s = (if seq_valid h s then Inr (cont s, nat (pos s)) else Inl OutOfRange)"

text \<open>Reading and assigning through a reference to an element.\<close>

definition ref_get :: "'a store \<Rightarrow> ref \<Rightarrow> 'a" where
  "ref_get h r = h (fst r) ! snd r"

definition ref_set :: "'a store \<Rightarrow> ref \<Rightarrow> 'a \<Rightarrow> 'a store" where
  "ref_set h r v = h(fst r := (h (fst r))[snd r := v])"

subsection \<open>\<open>zip_iterator\<close>\<close>

text \<open>
  \<open>zip_iterator<Args...>\<close> is the tuple of the iterators of the wrapped sequences,
  here the list of them in argument order. The private member templates recurse
  over the parameter pack \<open>A, B...\<close>; the model recurses over the list, the head
  being component \<open>Idx\<close>.
\<close>

type_synonym zip_iterator = "seq_iterator list"

text \<open>
  \<open>operator+=<Idx, A, B...>(n)\<close>: first \<open>operator+=<Idx+1, B...>(n)\<close>, then
  \<open>std::get<Idx>(*this) = std::get<Idx>(*this) + n\<close>.
\<close>

fun zip_add_idx :: "size_t \<Rightarrow> zip_iterator \<Rightarrow> zip_iterator" where
  "zip_add_idx n (a # bs) = (let bs' = zip_add_idx n bs in seq_plus a n # bs')"
| "zip_add_idx n [] = []"

definition zip_add :: "size_t \<Rightarrow> zip_iterator \<Rightarrow> zip_iterator" where
  "zip_add n it = zip_add_idx n it"

text \<open>\<open>zip_iterator& operator++() {return (*this += 1);}\<close>\<close>

definition zip_inc :: "zip_iterator \<Rightarrow> zip_iterator" where
  "zip_inc it = zip_add 1 it"






text \<open>
  \<open>operator*<Idx, A, B...>()\<close>: a one-element tuple holding \<open>*std::get<...>(*this)\<close>,
  concatenated with the tuple of the rest; the empty pack yields the empty tuple.
\<close>

fun zip_deref_idx :: "'a store \<Rightarrow> zip_iterator \<Rightarrow> error + ref list" where
  "zip_deref_idx h (a # bs) =
     (case seq_deref h a of
        Inl e \<Rightarrow> Inl e
      | Inr temp \<Rightarrow> (case zip_deref_idx h bs of Inl e \<Rightarrow> Inl e | Inr rest \<Rightarrow> Inr (temp # rest)))"
| "zip_deref_idx h [] = Inr []"

definition zip_deref :: "'a store \<Rightarrow> zip_iterator \<Rightarrow> error + ref list" where
  "zip_deref h it = zip_deref_idx h it"

text \<open>
  \<open>operator==<Idx, A, B...>(other)\<close> is
  \<open>std::get<Idx>(*this) == std::get<Idx>(other) || operator==<Idx+1, B...>(other)\<close>,
  and \<open>false\<close> for the empty pack. Both operands have the type
  \<open>zip_iterator<Args...>\<close>, hence the same number of components.
\<close>

fun zip_eq_idx :: "zip_iterator \<Rightarrow> zip_iterator \<Rightarrow> bool" where
  "zip_eq_idx (a # bs) (a' # bs') \<longleftrightarrow> seq_eq a a' \<or> zip_eq_idx bs bs'"
| "zip_eq_idx _ _ \<longleftrightarrow> False"

text \<open>
  The private \<open>operator!=<Idx, A, B...>(other)\<close> is
  \<open>std::get<Idx>(*this) != std::get<Idx>(other) && operator!=<Idx+1, B...>(other)\<close>,
  and \<open>true\<close> for the empty pack.
\<close>

fun zip_ne_idx :: "zip_iterator \<Rightarrow> zip_iterator \<Rightarrow> bool" where
  "zip_ne_idx (a # bs) (a' # bs') \<longleftrightarrow> seq_ne a a' \<and> zip_ne_idx bs bs'"
| "zip_ne_idx _ _ \<longleftrightarrow> True"

text \<open>
  The public operators: \<open>operator==\<close> returns \<open>operator==<0, Args...>(other)\<close> and
  \<open>operator!=\<close> returns \<open>! operator==<0, Args...>(other)\<close>.
\<close>

definition zip_eq :: "zip_iterator \<Rightarrow> zip_iterator \<Rightarrow> bool" where
  "zip_eq it other \<longleftrightarrow> zip_eq_idx it other"

definition zip_ne :: "zip_iterator \<Rightarrow> zip_iterator \<Rightarrow> bool" where
  "zip_ne it other \<longleftrightarrow> \<not> zip_eq_idx it other"

subsection \<open>\<open>zip_impl\<close>\<close>

text \<open>
  \<open>zip_impl<Args...>\<close> holds the references to the wrapped sequences, in argument
  order; the factory \<open>zip(containers...)\<close> builds it.
\<close>

record zip_impl =
  containers :: "addr list"

definition zip_view :: "addr list \<Rightarrow> zip_impl" where
  "zip_view cs = \<lparr>containers = cs\<rparr>"

text \<open>
  \<open>begin<1, A, B...>(begin_it)\<close> sets the component of \<open>A\<close> to \<open>begin()\<close> of its
  sequence after the components of \<open>B...\<close>; \<open>end\<close> does the same with \<open>end()\<close>.
\<close>

fun zip_begin_idx :: "addr list \<Rightarrow> zip_iterator" where
  "zip_begin_idx (c # cs) = (let rest = zip_begin_idx cs in seq_begin c # rest)"
| "zip_begin_idx [] = []"

fun zip_end_idx :: "'a store \<Rightarrow> addr list \<Rightarrow> zip_iterator" where
  "zip_end_idx h (c # cs) = (let rest = zip_end_idx h cs in seq_end h c # rest)"
| "zip_end_idx h [] = []"

definition zip_begin :: "zip_impl \<Rightarrow> zip_iterator" where
  "zip_begin z = zip_begin_idx (containers z)"

definition zip_end :: "'a store \<Rightarrow> zip_impl \<Rightarrow> zip_iterator" where
  "zip_end h z = zip_end_idx h (containers z)"

text \<open>
  The loop \<open>for (it = first; it != sentinel; ++it) use(*it);\<close> over zip iterators,
  collecting the tuples of references it obtains. It stops with the error when a
  dereference is out of range, and is \<open>None\<close> when it runs forever.
\<close>

partial_function (option) zip_iterator_for ::
  "'a store \<Rightarrow> zip_iterator \<Rightarrow> zip_iterator \<Rightarrow> (error + ref list list) option" where
  "zip_iterator_for h it sentinel =
     (if zip_ne it sentinel
      then (case zip_deref h it of
              Inl e \<Rightarrow> Some (Inl e)
            | Inr t \<Rightarrow> do { r \<leftarrow> zip_iterator_for h (zip_inc it) sentinel;
                           Some (map_sum id ((#) t) r) })
      else Some (Inr []))"

declare zip_iterator_for.simps [code]

text \<open>The range-based for loop over a view: \<open>for (auto t : zip(...))\<close>.\<close>

definition zip_for :: "'a store \<Rightarrow> zip_impl \<Rightarrow> (error + ref list list) option" where
  "zip_for h z = zip_iterator_for h (zip_begin z) (zip_end h z)"

section \<open>Properties of integer ranges\<close>

subsection \<open>Word arithmetic used below\<close>

lemma unat_offset:
  fixes s e :: "'a::len word"
  assumes "s \<le> e" "i < unat (e - s)"
  shows "unat (s + of_nat i) = unat s + i"
proof -
  have "unat (e - s) = unat e - unat s" using assms(1) by (rule unat_sub)
  with assms(2) have "unat s + i < unat e" by simp
  moreover have "unat e < 2 ^ LENGTH('a)" by (rule unsigned_less)
  ultimately have lt: "unat s + i < 2 ^ LENGTH('a)" by linarith
  then have "i < 2 ^ LENGTH('a)" by simp
  then have "i mod 2 ^ LENGTH('a) = i" by (rule mod_less)
  moreover from lt have "(unat s + i) mod 2 ^ LENGTH('a) = unat s + i" by (rule mod_less)
  ultimately show ?thesis by (simp add: unat_word_ariths unat_of_nat)
qed

lemma pow_half: "(2::int) ^ (LENGTH('a::len) - 1) + 2 ^ (LENGTH('a) - 1) = 2 ^ LENGTH('a)"
proof -
  have "LENGTH('a) = Suc (LENGTH('a) - 1)" by simp
  then have "(2::int) ^ LENGTH('a) = 2 * 2 ^ (LENGTH('a) - 1)" by (metis power_Suc)
  then show ?thesis by simp
qed

lemma sint_diff_count:
  fixes s e :: "'a::len word"
  assumes "s <s e"
  shows "int (unat (e - s)) = sint e - sint s"
proof -
  have pos: "0 \<le> sint e - sint s" using assms by (simp add: word_sless_alt)
  have "sint e < 2 ^ (LENGTH('a) - 1)" by (rule sint_lt)
  moreover have "- (2 ^ (LENGTH('a) - 1)) \<le> sint s" by (rule sint_ge)
  ultimately have up: "sint e - sint s < 2 ^ LENGTH('a)"
    using pow_half [where 'a='a] by linarith
  have "e - s = word_of_int (sint e - sint s)" by simp
  then have "uint (e - s) = uint (word_of_int (sint e - sint s) :: 'a word)" by (rule arg_cong)
  also have "\<dots> = take_bit LENGTH('a) (sint e - sint s)" by (rule uint_word_of_int_eq)
  also have "\<dots> = sint e - sint s" using pos up by (rule take_bit_int_eq_self)
  finally have "uint (e - s) = sint e - sint s" .
  then show ?thesis unfolding uint_nat .
qed

lemma sint_offset:
  fixes s e :: "'a::len word"
  assumes "s <s e" "i < unat (e - s)"
  shows "sint (s + of_nat i) = sint s + int i"
proof -
  have "int i < sint e - sint s"
    using assms(2) sint_diff_count [OF assms(1)] by linarith
  moreover have "sint e < 2 ^ (LENGTH('a) - 1)" by (rule sint_lt)
  ultimately have up: "sint s + int i < 2 ^ (LENGTH('a) - 1)" by linarith
  have "- (2 ^ (LENGTH('a) - 1)) \<le> sint s" by (rule sint_ge)
  then have lo: "- (2 ^ (LENGTH('a) - 1)) \<le> sint s + int i" by linarith
  have of_int: "sint (word_of_int k :: 'a word) = signed_take_bit (LENGTH('a) - 1) k" for k
    by (simp add: signed_of_int)
  have "s + of_nat i = word_of_int (sint s + int i)" by simp
  then have "sint (s + of_nat i) = sint (word_of_int (sint s + int i) :: 'a word)" by (rule arg_cong)
  also have "\<dots> = signed_take_bit (LENGTH('a) - 1) (sint s + int i)" by (rule of_int)
  also have "\<dots> = sint s + int i" using lo up by (rule signed_take_bit_int_eq_self)
  finally show ?thesis .
qed

subsection \<open>The driving loop\<close>

lemma Iterator_inc_simps:
  "val (Iterator_inc it) = val it + pace it" "pace (Iterator_inc it) = pace it"
  by (simp_all add: Iterator_inc_def Iterator_add_def)

lemma Iterator_dec_simps:
  "val (Iterator_dec it) = val it - pace it" "pace (Iterator_dec it) = pace it"
  by (simp_all add: Iterator_dec_def Iterator_sub_def)

text \<open>
  If the sentinel is hit after \<open>k\<close> increments and not before, the loop stops and has
  dereferenced the \<open>k\<close> values before it.
\<close>

lemma Iterator_for_steps:
  "val it + of_nat k * pace it = val e \<Longrightarrow> (\<forall>j<k. val it + of_nat j * pace it \<noteq> val e) \<Longrightarrow>
   Iterator_for it e = Some (map (\<lambda>i. val it + of_nat i * pace it) [0..<k])"
proof (induction k arbitrary: it)
  case 0
  then show ?case
    by (simp add: Iterator_for.simps Iterator_ne_def Iterator_eq_def)
next
  case (Suc k)
  from Suc.prems(2) have ne: "val it \<noteq> val e" by force
  have step: "val (Iterator_inc it) + of_nat k * pace (Iterator_inc it) = val e"
    using Suc.prems(1) by (simp add: Iterator_inc_simps algebra_simps)
  have nohit: "\<forall>j<k. val (Iterator_inc it) + of_nat j * pace (Iterator_inc it) \<noteq> val e"
  proof (intro allI impI)
    fix j assume "j < k"
    then have "val it + of_nat (Suc j) * pace it \<noteq> val e"
      using Suc.prems(2) by (meson Suc_less_eq)
    then show "val (Iterator_inc it) + of_nat j * pace (Iterator_inc it) \<noteq> val e"
      by (simp add: Iterator_inc_simps algebra_simps)
  qed
  have rec: "Iterator_for (Iterator_inc it) e =
      Some (map (\<lambda>i. val (Iterator_inc it) + of_nat i * pace (Iterator_inc it)) [0..<k])"
    by (rule Suc.IH [OF step nohit])
  have shift: "map (\<lambda>i. val it + of_nat i * pace it) [0..<Suc k] =
      val it # map (\<lambda>i. val (Iterator_inc it) + of_nat i * pace (Iterator_inc it)) [0..<k]"
    by (simp add: upt_conv_Cons map_Suc_upt [symmetric] Iterator_inc_simps algebra_simps del: upt_Suc)
  show ?case
    unfolding shift
    by (subst Iterator_for.simps) (simp add: rec ne Iterator_ne_def Iterator_eq_def Iterator_deref_def)
qed

text \<open>Conversely, a loop that stops has hit the sentinel, for the first time, at its length.\<close>

lemma Iterator_for_SomeD:
  "Iterator_for it e = Some vs \<Longrightarrow>
   val it + of_nat (length vs) * pace it = val e \<and>
   (\<forall>j<length vs. val it + of_nat j * pace it \<noteq> val e)"
proof (induction rule: Iterator_for.raw_induct [rotated 1, consumes 1])
  case (1 f it e vs)
  show ?case
  proof (cases "Iterator_ne it e")
    case False
    with 1(2) show ?thesis by (simp add: Iterator_ne_def Iterator_eq_def)
  next
    case True
    with 1(2) obtain ws where ws: "f (Iterator_inc it) e = Some ws" and vs: "vs = Iterator_deref it # ws"
      by (auto simp: bind_eq_Some_conv)
    from 1(1) [OF ws] have a: "val (Iterator_inc it) + of_nat (length ws) * pace (Iterator_inc it) = val e"
      and b: "\<forall>j<length ws. val (Iterator_inc it) + of_nat j * pace (Iterator_inc it) \<noteq> val e"
      by simp_all
    have "val it + of_nat (length vs) * pace it = val e"
      using a by (simp add: vs Iterator_inc_simps algebra_simps)
    moreover have "\<forall>j<length vs. val it + of_nat j * pace it \<noteq> val e"
    proof (intro allI impI)
      fix j assume j: "j < length vs"
      show "val it + of_nat j * pace it \<noteq> val e"
      proof (cases j)
        case 0
        with True show ?thesis by (simp add: Iterator_ne_def Iterator_eq_def)
      next
        case (Suc i)
        with j have "i < length ws" by (simp add: vs)
        with b have "val (Iterator_inc it) + of_nat i * pace (Iterator_inc it) \<noteq> val e" by blast
        then show ?thesis by (simp add: Suc Iterator_inc_simps algebra_simps)
      qed
    qed
    ultimately show ?thesis by blast
  qed
qed

lemma Iterator_for_Some_values:
  assumes "Iterator_for it e = Some vs"
  shows "vs = map (\<lambda>i. val it + of_nat i * pace it) [0..<length vs]"
proof -
  from Iterator_for_SomeD [OF assms]
  have "Iterator_for it e = Some (map (\<lambda>i. val it + of_nat i * pace it) [0..<length vs])"
    by (intro Iterator_for_steps) simp_all
  with assms show ?thesis by simp
qed

lemma Iterator_for_terminates_iff:
  "Iterator_for it e \<noteq> None \<longleftrightarrow> (\<exists>k. val it + of_nat k * pace it = val e)"
proof
  assume "Iterator_for it e \<noteq> None"
  then obtain vs where "Iterator_for it e = Some vs" by blast
  from Iterator_for_SomeD [OF this] show "\<exists>k. val it + of_nat k * pace it = val e" by blast
next
  assume ex: "\<exists>k. val it + of_nat k * pace it = val e"
  define k where "k = (LEAST k. val it + of_nat k * pace it = val e)"
  have hit: "val it + of_nat k * pace it = val e"
    unfolding k_def using ex by (rule LeastI_ex)
  have "\<forall>j<k. val it + of_nat j * pace it \<noteq> val e"
    unfolding k_def using not_less_Least by blast
  from Iterator_for_steps [OF hit this] show "Iterator_for it e \<noteq> None" by simp
qed

lemmas Range_simps =
  Range_for_def range1_def range3_def Range_ctor_def Range_begin_def Range_end_def Iterator_def

lemmas Iterator_eval =
  Iterator_for.simps Iterator_ne_def Iterator_eq_def Iterator_inc_def Iterator_add_def
  Iterator_deref_def

text \<open>With pace 1 the loop from \<open>s\<close> to \<open>e\<close> stops after \<open>unat (e - s)\<close> steps.\<close>

lemma Range_for_unit_pace:
  fixes s e :: "'a::len word"
  shows "Range_for (Range_ctor s e 1) = Some (map (\<lambda>i. s + of_nat i) [0..<unat (e - s)])"
proof -
  let ?it = "Iterator s 1" and ?e = "Iterator e (1::'a word)"
  have hit: "val ?it + of_nat (unat (e - s)) * pace ?it = val ?e"
    by (simp add: Iterator_def)
  have nohit: "\<forall>j<unat (e - s). val ?it + of_nat j * pace ?it \<noteq> val ?e"
  proof (intro allI impI)
    fix j assume j: "j < unat (e - s)"
    have "unat (of_nat j :: 'a word) = j"
      using j by (meson le_unat_uoi less_imp_le)
    with j have "(of_nat j :: 'a word) \<noteq> e - s" by auto
    then have "s + of_nat j \<noteq> e" by (metis add_diff_cancel_left')
    then show "val ?it + of_nat j * pace ?it \<noteq> val ?e"
      by (simp add: Iterator_def)
  qed
  from Iterator_for_steps [OF hit nohit] show ?thesis
    by (simp add: Range_simps)
qed

lemma Iterator_for_step:
  "val it \<noteq> val e \<Longrightarrow>
   Iterator_for it e = Iterator_for (Iterator_inc it) e \<bind> (\<lambda>vs. Some (val it # vs))"
  by (subst Iterator_for.simps) (simp add: Iterator_ne_def Iterator_eq_def Iterator_deref_def)

lemma Range_for_iff:
  fixes s e p :: "'a::len word"
  shows "Range_for (Range_ctor s e p) \<noteq> None \<longleftrightarrow> (\<exists>k. s + of_nat k * p = e)"
  using Iterator_for_terminates_iff [of "Iterator s p" "Iterator e p"]
  by (simp add: Range_simps)

lemma Range_for_vals:
  fixes s e p :: "'a::len word"
  assumes "Range_for (Range_ctor s e p) = Some vs"
  shows "s + of_nat (length vs) * p = e \<and> (\<forall>j<length vs. s + of_nat j * p \<noteq> e) \<and>
       vs = map (\<lambda>i. s + of_nat i * p) [0..<length vs]"
proof -
  from assms have run: "Iterator_for (Iterator s p) (Iterator e p) = Some vs"
    by (simp add: Range_simps)
  from Iterator_for_SomeD [OF run] Iterator_for_Some_values [OF run]
  show ?thesis by (simp add: Iterator_def)
qed

lemma Range_for_parity:
  fixes s e p :: "'a::len word"
  assumes "even p" "odd (e - s)"
  shows "Range_for (Range_ctor s e p) = None"
proof (rule ccontr)
  assume "Range_for (Range_ctor s e p) \<noteq> None"
  then obtain k where "s + of_nat k * p = e" unfolding Range_for_iff by blast
  then have "e - s = of_nat k * p" by (simp add: algebra_simps)
  moreover have "even (of_nat k * p)" using assms(1) by (rule dvd_mult)
  ultimately show False using assms(2) by simp
qed

subsection \<open>Ranges of pace 1\<close>

lemma unit_pace_count_pos:
  fixes s e :: "'a::len word"
  assumes "s \<noteq> e"
  shows "0 < unat (e - s)"
proof -
  from assms have "e - s \<noteq> 0" by simp
  then show ?thesis by (simp add: unat_gt_0)
qed

lemma unit_pace_hd_last:
  fixes s e :: "'a::len word"
  assumes "s \<noteq> e"
  defines "vs \<equiv> map (\<lambda>i. s + of_nat i) [0..<unat (e - s)]"
  shows "hd vs = s" "last vs = e - 1"
proof -
  from unit_pace_count_pos [OF assms(1)] obtain m where m: "unat (e - s) = Suc m"
    by (meson gr0_implies_Suc)
  show "hd vs = s"
    unfolding vs_def m by (simp add: upt_conv_Cons del: upt_Suc)
  have "(of_nat (unat (e - s)) :: 'a word) = e - s"
    by simp
  then have "(of_nat (Suc m) :: 'a word) = e - s"
    unfolding m .
  then have "s + of_nat m = e - 1"
    by (simp add: algebra_simps)
  then show "last vs = e - 1"
    unfolding vs_def m by simp
qed

lemma unit_pace_sorted_unsigned:
  fixes s e :: "'a::len word"
  assumes "s < e"
  shows "sorted_wrt (<) (map (\<lambda>i. s + of_nat i) [0..<unat (e - s)])"
proof -
  from assms have le: "s \<le> e" by simp
  have "s + of_nat i < s + of_nat j" if "i < j" "j < unat (e - s)" for i j
  proof -
    from that have "i < unat (e - s)" by simp
    then have "unat (s + of_nat i) = unat s + i" by (rule unat_offset [OF le])
    moreover have "unat (s + of_nat j) = unat s + j" using that(2) by (rule unat_offset [OF le])
    ultimately show ?thesis using that(1) by (simp add: word_less_nat_alt)
  qed
  then show ?thesis
    by (simp add: sorted_wrt_iff_nth_less)
qed

lemma unit_pace_sorted_signed:
  fixes s e :: "'a::len word"
  assumes "s <s e"
  shows "sorted_wrt (<s) (map (\<lambda>i. s + of_nat i) [0..<unat (e - s)])"
proof -
  have "s + of_nat i <s s + of_nat j" if "i < j" "j < unat (e - s)" for i j
  proof -
    from that have "i < unat (e - s)" by simp
    then have "sint (s + of_nat i) = sint s + int i" by (rule sint_offset [OF assms])
    moreover have "sint (s + of_nat j) = sint s + int j" using that(2) by (rule sint_offset [OF assms])
    ultimately show ?thesis using that(1) by (simp add: word_sless_alt)
  qed
  then show ?thesis
    by (simp add: sorted_wrt_iff_nth_less)
qed

lemma unit_pace_count_unsigned:
  fixes s e :: "'a::len word"
  assumes "s < e"
  shows "int (unat (e - s)) = uint e - uint s"
proof -
  from assms have le: "s \<le> e" by simp
  then have "unat (e - s) = unat e - unat s" by (rule unat_sub)
  then have "int (unat (e - s)) = int (unat e - unat s)" by (rule arg_cong)
  also from le have "unat s \<le> unat e" by (simp add: word_le_nat_alt)
  then have "int (unat e - unat s) = int (unat e) - int (unat s)" by (rule of_nat_diff)
  finally show ?thesis unfolding uint_nat .
qed

subsection \<open>Stepping an iterator\<close>

text \<open>
  C9: \<open>it += n\<close> followed by \<open>it -= n\<close>, and \<open>it -= n\<close> followed by \<open>it += n\<close>,
  restore the iterator; prefix decrement and prefix increment are inverse to each
  other; no increment or decrement, prefix, postfix or by an offset, changes the
  pace.
\<close>

theorem Iterator_add_sub_inverse:
  "Iterator_sub n (Iterator_add n it) = it \<and>
   Iterator_add n (Iterator_sub n it) = it \<and>
   Iterator_dec (Iterator_inc it) = it \<and>
   Iterator_inc (Iterator_dec it) = it \<and>
   pace (Iterator_add n it) = pace it \<and>
   pace (Iterator_sub n it) = pace it \<and>
   pace (Iterator_inc it) = pace it \<and>
   pace (Iterator_dec it) = pace it \<and>
   pace (snd (Iterator_post_inc it)) = pace it \<and>
   pace (snd (Iterator_post_dec it)) = pace it"
  by (simp add: Iterator_add_def Iterator_sub_def Iterator_inc_def Iterator_dec_def
      Iterator_post_inc_def Iterator_post_dec_def)

text \<open>
  C10: \<open>it++\<close> returns an iterator holding the value before the increment and leaves
  the operand advanced by the pace; \<open>it--\<close> returns an iterator holding the value
  before the decrement and leaves the operand decreased by the pace.
\<close>

theorem Iterator_postfix:
  "fst (Iterator_post_inc it) = it \<and>
   val (fst (Iterator_post_inc it)) = val it \<and>
   val (snd (Iterator_post_inc it)) = val it + pace it \<and>
   snd (Iterator_post_inc it) = Iterator_inc it \<and>
   fst (Iterator_post_dec it) = it \<and>
   val (fst (Iterator_post_dec it)) = val it \<and>
   val (snd (Iterator_post_dec it)) = val it - pace it \<and>
   snd (Iterator_post_dec it) = Iterator_dec it"
  by (simp add: Iterator_add_def Iterator_sub_def Iterator_inc_def Iterator_dec_def
      Iterator_post_inc_def Iterator_post_dec_def)

subsection \<open>Dereference\<close>

text \<open>
  C8: dereferencing an \<open>Iterator\<close> yields its current value, the member \<open>_val\<close>.
  \<open>Const_Iterator::operator*\<close> names the member \<open>val\<close>, which the class does not
  have: dereferencing a \<open>Const_Iterator\<close> yields no value.
\<close>

theorem Const_Iterator_deref_ill_formed:
  "Iterator_member ''_val'' it = Some (Iterator_deref it) \<and>
   Const_Iterator_deref it = None \<and>
   Const_Iterator_deref (Iterator (3::32 word) 1) \<noteq> Some 3"
  by (simp add: Iterator_member_def Const_Iterator_deref_def Iterator_deref_def)

subsection \<open>Termination of the loop over a range\<close>

text \<open>
  C3, as stated, fails: with a pace whose sign disagrees with the direction from
  start to end, or with a difference that is not a multiple of the pace, the value
  can wrap around and reach the sentinel. Over \<open>std::size_t\<close>, the loop over
  \<open>range(5, 0, 1)\<close> stops, and the loop over \<open>range(2^64 - 6, 3, 3)\<close> stops after
  three values; over 32-bit \<open>int\<close>, the loop over \<open>range(0, -5, 1)\<close> stops.
\<close>

theorem Range_for_wraps_counterexample:
  "(0::size_t) < 5 \<and> (0::size_t) < 1 \<and> Range_for (Range_ctor (5::size_t) 0 1) \<noteq> None \<and>
   (- 5 :: 32 word) <s 0 \<and> (0 :: 32 word) <s 1 \<and> Range_for (Range_ctor (0::32 word) (- 5) 1) \<noteq> None \<and>
   (3::size_t) < 18446744073709551610 \<and> (0::size_t) < 3 \<and>
   (int 18446744073709551610 - 3) mod 3 \<noteq> 0 \<and>
   Range_for (Range_ctor (18446744073709551610::size_t) 3 3) =
     Some [18446744073709551610, 18446744073709551613, 0]"
proof -
  have "Range_for (Range_ctor (5::size_t) 0 1) \<noteq> None"
    by (simp add: Range_for_unit_pace)
  moreover have "Range_for (Range_ctor (0::32 word) (- 5) 1) \<noteq> None"
    by (simp add: Range_for_unit_pace)
  moreover have "(- 5 :: 32 word) <s 0 \<and> (0 :: 32 word) <s 1"
    by (simp add: word_sless_alt)
  moreover have "Range_for (Range_ctor (18446744073709551610::size_t) 3 3) =
     Some [18446744073709551610, 18446744073709551613, 0]"
    by (simp add: Range_simps Iterator_eval)
  ultimately show ?thesis by simp
qed

text \<open>
  C3, amended: the loop over \<open>Range(start, end, pace)\<close> stops if and only if
  \<open>start + k * pace = end\<close> for some \<open>k\<close>, the arithmetic being that of
  \<open>IntegerType\<close>, modulo \<open>2 ^ LENGTH('a)\<close>. When it stops it has yielded
  \<open>start + i * pace\<close> for every \<open>i\<close> below the least such \<open>k\<close>. When no such \<open>k\<close>
  exists, as for an even pace and an odd difference, the loop never stops.
\<close>

theorem Range_for_terminates:
  fixes s e p :: "'a::len word"
  shows "(Range_for (Range_ctor s e p) \<noteq> None \<longleftrightarrow> (\<exists>k. s + of_nat k * p = e)) \<and>
    (\<forall>vs. Range_for (Range_ctor s e p) = Some vs \<longrightarrow>
       s + of_nat (length vs) * p = e \<and>
       (\<forall>j<length vs. s + of_nat j * p \<noteq> e) \<and>
       vs = map (\<lambda>i. s + of_nat i * p) [0..<length vs]) \<and>
    (even p \<and> odd (e - s) \<longrightarrow> Range_for (Range_ctor s e p) = None)"
proof -
  have stops: "Range_for (Range_ctor s e p) \<noteq> None \<longleftrightarrow> (\<exists>k. s + of_nat k * p = e)"
    by (rule Range_for_iff)
  have vals: "\<forall>vs. Range_for (Range_ctor s e p) = Some vs \<longrightarrow>
       s + of_nat (length vs) * p = e \<and>
       (\<forall>j<length vs. s + of_nat j * p \<noteq> e) \<and>
       vs = map (\<lambda>i. s + of_nat i * p) [0..<length vs]"
  proof (rule allI, rule impI)
    fix vs assume "Range_for (Range_ctor s e p) = Some vs"
    then show "s + of_nat (length vs) * p = e \<and>
       (\<forall>j<length vs. s + of_nat j * p \<noteq> e) \<and>
       vs = map (\<lambda>i. s + of_nat i * p) [0..<length vs]"
      by (rule Range_for_vals)
  qed
  have parity: "even p \<and> odd (e - s) \<longrightarrow> Range_for (Range_ctor s e p) = None"
    using Range_for_parity by blast
  show ?thesis
    by (rule conjI [OF stops conjI [OF vals parity]])
qed

text \<open>
  C3, an instance: over 32-bit integers \<open>range(0, 10, 2)\<close> stops after five values
  and \<open>range(0, 5, 2)\<close> never stops.
\<close>

theorem Range_for_terminates_witness:
  "Range_for (Range_ctor (0::32 word) 10 2) = Some [0, 2, 4, 6, 8] \<and>
   (0::32 word) + of_nat (length [0::32 word, 2, 4, 6, 8]) * 2 = 10 \<and>
   even (2::32 word) \<and> odd (5 - 0 :: 32 word) \<and>
   Range_for (Range_ctor (0::32 word) 5 2) = None"
proof -
  have run: "Range_for (Range_ctor (0::32 word) 10 2) = Some [0, 2, 4, 6, 8]"
    by (simp add: Range_simps Iterator_eval)
  have par: "even (2::32 word) \<and> odd (5 - 0 :: 32 word)"
    by simp
  note thm10 = Range_for_terminates [of 0 10 "2::32 word"]
  note thm5 = Range_for_terminates [of 0 5 "2::32 word"]
  from thm10 run
  have "(0::32 word) + of_nat (length [0::32 word, 2, 4, 6, 8]) * 2 = 10"
    by simp
  moreover from thm5 par
  have "Range_for (Range_ctor (0::32 word) 5 2) = None"
    by (elim conjE impE) simp_all
  ultimately show ?thesis using run par by simp
qed

subsection \<open>The values of a range\<close>

text \<open>
  C4: for \<open>start < end\<close>, in the unsigned or in the signed order of \<open>IntegerType\<close>,
  the loop over \<open>range(start, end, 1)\<close> stops and yields exactly \<open>end - start\<close>
  values, strictly increasing, the first being \<open>start\<close> and the last \<open>end - 1\<close>.
  \<open>range(5)\<close> yields \<open>[0, 1, 2, 3, 4]\<close> and \<open>range(0, 10, 2)\<close> yields
  \<open>[0, 2, 4, 6, 8]\<close>, over \<open>int\<close> and over \<open>std::size_t\<close>.
\<close>

theorem range_unit_pace:
  fixes s e :: "'a::len word"
  shows "(s < e \<or> s <s e \<longrightarrow>
      (\<exists>vs. Range_for (range3 s e 1) = Some vs \<and>
        vs = map (\<lambda>i. s + of_nat i) [0..<unat (e - s)] \<and>
        length vs = unat (e - s) \<and> hd vs = s \<and> last vs = e - 1 \<and>
        (s < e \<longrightarrow> int (length vs) = uint e - uint s \<and> sorted_wrt (<) vs) \<and>
        (s <s e \<longrightarrow> int (length vs) = sint e - sint s \<and> sorted_wrt (<s) vs))) \<and>
    Range_for (range1 (5::32 word)) = Some [0, 1, 2, 3, 4] \<and>
    Range_for (range3 (0::32 word) 10 2) = Some [0, 2, 4, 6, 8] \<and>
    Range_for (range1 (5::size_t)) = Some [0, 1, 2, 3, 4] \<and>
    Range_for (range3 (0::size_t) 10 2) = Some [0, 2, 4, 6, 8]"
proof -
  have general: "\<exists>vs. Range_for (range3 s e 1) = Some vs \<and>
        vs = map (\<lambda>i. s + of_nat i) [0..<unat (e - s)] \<and>
        length vs = unat (e - s) \<and> hd vs = s \<and> last vs = e - 1 \<and>
        (s < e \<longrightarrow> int (length vs) = uint e - uint s \<and> sorted_wrt (<) vs) \<and>
        (s <s e \<longrightarrow> int (length vs) = sint e - sint s \<and> sorted_wrt (<s) vs)"
    if less: "s < e \<or> s <s e"
  proof -
    define vs where "vs = map (\<lambda>i. s + of_nat i) [0..<unat (e - s)]"
    from less have ne: "s \<noteq> e" by auto
    have run: "Range_for (range3 s e 1) = Some vs"
      unfolding vs_def range3_def by (rule Range_for_unit_pace)
    have len: "length vs = unat (e - s)"
      by (simp add: vs_def)
    have ends: "hd vs = s" "last vs = e - 1"
      unfolding vs_def by (rule unit_pace_hd_last [OF ne])+
    have unsigned: "int (length vs) = uint e - uint s \<and> sorted_wrt (<) vs" if "s < e"
      unfolding len using that unfolding vs_def
      by (intro conjI unit_pace_count_unsigned unit_pace_sorted_unsigned)
    have signed: "int (length vs) = sint e - sint s \<and> sorted_wrt (<s) vs" if "s <s e"
      unfolding len using that unfolding vs_def
      by (intro conjI sint_diff_count unit_pace_sorted_signed)
    from run len ends unsigned signed vs_def show ?thesis
      by (intro exI [of _ vs] conjI impI) simp_all
  qed
  have c1: "Range_for (range1 (5::32 word)) = Some [0, 1, 2, 3, 4]"
    by (simp add: Range_simps Iterator_eval)
  have c2: "Range_for (range3 (0::32 word) 10 2) = Some [0, 2, 4, 6, 8]"
    by (simp add: Range_simps Iterator_eval)
  have c3: "Range_for (range1 (5::size_t)) = Some [0, 1, 2, 3, 4]"
    by (simp add: Range_simps Iterator_eval)
  have c4: "Range_for (range3 (0::size_t) 10 2) = Some [0, 2, 4, 6, 8]"
    by (simp add: Range_simps Iterator_eval)
  from general have "s < e \<or> s <s e \<longrightarrow>
      (\<exists>vs. Range_for (range3 s e 1) = Some vs \<and>
        vs = map (\<lambda>i. s + of_nat i) [0..<unat (e - s)] \<and>
        length vs = unat (e - s) \<and> hd vs = s \<and> last vs = e - 1 \<and>
        (s < e \<longrightarrow> int (length vs) = uint e - uint s \<and> sorted_wrt (<) vs) \<and>
        (s <s e \<longrightarrow> int (length vs) = sint e - sint s \<and> sorted_wrt (<s) vs))"
    by (rule impI)
  with c1 c2 c3 c4 show ?thesis
    by (intro conjI)
qed

text \<open>C4, an instance: \<open>range(2, 6, 1)\<close> over 32-bit integers yields \<open>[2, 3, 4, 5]\<close>.\<close>

theorem range_unit_pace_witness:
  "((2::32 word) < 6 \<or> (2::32 word) <s 6) \<and> (2::32 word) < 6 \<and> (2::32 word) <s 6 \<and>
   (\<exists>vs. Range_for (range3 (2::32 word) 6 1) = Some vs \<and> vs = [2, 3, 4, 5] \<and>
      length vs = 4 \<and> hd vs = 2 \<and> last vs = 5 \<and>
      int (length vs) = uint (6::32 word) - uint (2::32 word) \<and> sorted_wrt (<) vs \<and>
      int (length vs) = sint (6::32 word) - sint (2::32 word) \<and> sorted_wrt (<s) vs)"
proof -
  have less: "(2::32 word) < 6" "(2::32 word) <s 6"
    by (simp_all add: word_sless_alt)
  have count: "unat (6 - 2 :: 32 word) = 4"
    by simp
  have upt4: "[0..<4] = [0, 1, 2, 3::nat]"
    by code_simp
  from range_unit_pace [of 2 "6::32 word"] less
  obtain vs where vs: "Range_for (range3 (2::32 word) 6 1) = Some vs"
      "vs = map (\<lambda>i. 2 + of_nat i) [0..<unat (6 - 2 :: 32 word)]"
      "length vs = unat (6 - 2 :: 32 word)" "hd vs = 2" "last vs = 6 - 1"
      "int (length vs) = uint (6::32 word) - uint (2::32 word)" "sorted_wrt (<) vs"
      "int (length vs) = sint (6::32 word) - sint (2::32 word)" "sorted_wrt (<s) vs"
    by blast
  from vs(2) have "vs = [2, 3, 4, 5]"
    unfolding count upt4 by simp
  moreover from vs(3) have "length vs = 4"
    unfolding count .
  moreover from vs(5) have "last vs = 5"
    by simp
  ultimately show ?thesis
    using less vs(1,4,6-9) by blast
qed

subsection \<open>Reverse endpoints\<close>

lemma Iterator_for_down_steps:
  "val it - of_nat k * pace it = val e \<Longrightarrow> (\<forall>j<k. val it - of_nat j * pace it \<noteq> val e) \<Longrightarrow>
   Iterator_for_down it e = Some (map (\<lambda>i. val it - of_nat i * pace it) [0..<k])"
proof (induction k arbitrary: it)
  case 0
  then show ?case
    by (simp add: Iterator_for_down.simps Iterator_ne_def Iterator_eq_def)
next
  case (Suc k)
  from Suc.prems(2) have ne: "val it \<noteq> val e" by force
  have step: "val (Iterator_dec it) - of_nat k * pace (Iterator_dec it) = val e"
    using Suc.prems(1) by (simp add: Iterator_dec_simps algebra_simps)
  have nohit: "\<forall>j<k. val (Iterator_dec it) - of_nat j * pace (Iterator_dec it) \<noteq> val e"
  proof (intro allI impI)
    fix j assume "j < k"
    then have "val it - of_nat (Suc j) * pace it \<noteq> val e"
      using Suc.prems(2) by (meson Suc_less_eq)
    then show "val (Iterator_dec it) - of_nat j * pace (Iterator_dec it) \<noteq> val e"
      by (simp add: Iterator_dec_simps algebra_simps)
  qed
  have rec: "Iterator_for_down (Iterator_dec it) e =
      Some (map (\<lambda>i. val (Iterator_dec it) - of_nat i * pace (Iterator_dec it)) [0..<k])"
    by (rule Suc.IH [OF step nohit])
  have shift: "map (\<lambda>i. val it - of_nat i * pace it) [0..<Suc k] =
      val it # map (\<lambda>i. val (Iterator_dec it) - of_nat i * pace (Iterator_dec it)) [0..<k]"
    by (simp add: upt_conv_Cons map_Suc_upt [symmetric] Iterator_dec_simps algebra_simps del: upt_Suc)
  show ?case
    unfolding shift
    by (subst Iterator_for_down.simps) (simp add: rec ne Iterator_ne_def Iterator_eq_def Iterator_deref_def)
qed

text \<open>
  Driven by \<open>--\<close>, the pair \<open>rbegin()\<close>, \<open>rend()\<close> does yield the reverse of the forward
  values, whenever the forward loop stops.
\<close>

lemma Range_reverse_by_decrement:
  fixes r :: "'a::len word Range"
  assumes "Range_for r = Some vs"
  shows "Iterator_for_down (Range_rbegin r) (Range_rend r) = Some (rev vs)"
proof -
  define s e p k where "s = r_start r" and "e = r_end r" and "p = r_pace r" and "k = length vs"
  have r: "r = Range_ctor s e p"
    by (simp add: Range_ctor_def s_def e_def p_def)
  from assms Range_for_vals [of s e p vs]
  have hit: "s + of_nat k * p = e" and nohit: "\<forall>j<k. s + of_nat j * p \<noteq> e"
    and vs: "vs = map (\<lambda>i. s + of_nat i * p) [0..<k]"
    unfolding r k_def by blast+
  let ?b = "Iterator (e - p) p" and ?e = "Iterator (s - p) p"
  have ends: "Range_rbegin r = ?b" "Range_rend r = ?e"
    by (simp_all add: r Range_rbegin_def Range_rend_def Range_simps Iterator_dec_def Iterator_sub_def)
  have hit': "val ?b - of_nat k * pace ?b = val ?e"
    using hit by (simp add: Iterator_def algebra_simps)
  have nohit': "\<forall>j<k. val ?b - of_nat j * pace ?b \<noteq> val ?e"
  proof (intro allI impI)
    fix j assume "j < k"
    with nohit have "s + of_nat j * p \<noteq> e" by blast
    then show "val ?b - of_nat j * pace ?b \<noteq> val ?e"
      by (auto simp: Iterator_def algebra_simps)
  qed
  have "rev vs = map (\<lambda>i. val ?b - of_nat i * pace ?b) [0..<k]"
  proof (rule nth_equalityI)
    show "length (rev vs) = length (map (\<lambda>i. val ?b - of_nat i * pace ?b) [0..<k])"
      by (simp add: k_def)
  next
    fix i assume "i < length (rev vs)"
    then have i: "i < k" by (simp add: k_def)
    then have "rev vs ! i = vs ! (k - Suc i)"
      by (simp add: rev_nth k_def)
    also have "\<dots> = s + of_nat (k - Suc i) * p"
      using i by (subst vs) simp
    also have "(of_nat (k - Suc i) :: 'a word) = of_nat k - of_nat (Suc i)"
      using i by (simp add: of_nat_diff)
    also have "s + (of_nat k - of_nat (Suc i)) * p = e - p - of_nat i * p"
      unfolding hit [symmetric] by (simp add: algebra_simps)
    finally show "rev vs ! i = map (\<lambda>i. val ?b - of_nat i * pace ?b) [0..<k] ! i"
      using i by (simp add: Iterator_def)
  qed
  with Iterator_for_down_steps [OF hit' nohit'] show ?thesis
    unfolding ends by simp
qed

text \<open>
  C5: \<open>rbegin()\<close> is \<open>--end()\<close> and \<open>rend()\<close> is \<open>--begin()\<close>, and the claim has the
  pair, driven by \<open>++\<close>, yield the reverse of the forward values. For
  \<open>range(0, 3, 1)\<close> over 32-bit integers the forward values are \<open>[0, 1, 2]\<close>; the loop
  from \<open>rbegin()\<close> to \<open>rend()\<close> yields 2, 3, 4 and more, not \<open>[2, 1, 0]\<close>: both
  iterators keep the pace of the range, so \<open>++\<close> moves away from \<open>rend()\<close>. Only
  \<open>--\<close> walks from \<open>rbegin()\<close> to \<open>rend()\<close>.
\<close>

theorem Range_rbegin_forward_not_reverse:
  "Range_for (range3 (0::32 word) 3 1) = Some [0, 1, 2] \<and>
   Range_rbegin (range3 (0::32 word) 3 1) = Iterator_dec (Range_end (range3 0 3 1)) \<and>
   Range_rend (range3 (0::32 word) 3 1) = Iterator_dec (Range_begin (range3 0 3 1)) \<and>
   Range_rbegin (range3 (0::32 word) 3 1) = Iterator 2 1 \<and>
   Range_rend (range3 (0::32 word) 3 1) = Iterator (- 1) 1 \<and>
   (\<exists>vs. Iterator_for (Range_rbegin (range3 (0::32 word) 3 1)) (Range_rend (range3 0 3 1)) =
      Some (2 # 3 # 4 # vs)) \<and>
   Iterator_for (Range_rbegin (range3 (0::32 word) 3 1)) (Range_rend (range3 0 3 1)) \<noteq>
      Some (rev [0, 1, 2]) \<and>
   Iterator_for_down (Range_rbegin (range3 (0::32 word) 3 1)) (Range_rend (range3 0 3 1)) =
      Some [2, 1, 0]"
proof -
  let ?r = "range3 (0::32 word) 3 1"
  let ?e = "Iterator (- 1) (1::32 word)"
  have fwd: "Range_for ?r = Some [0, 1, 2]"
    by (simp add: Range_simps Iterator_eval)
  have rb: "Range_rbegin ?r = Iterator 2 1"
    by (simp add: Range_rbegin_def Range_simps Iterator_dec_def Iterator_sub_def)
  have re: "Range_rend ?r = ?e"
    by (simp add: Range_rend_def Range_simps Iterator_dec_def Iterator_sub_def)
  have "\<exists>k. val (Iterator 5 (1::32 word)) + of_nat k * pace (Iterator 5 (1::32 word)) = val ?e"
    by (rule exI [of _ "unat (- 6 :: 32 word)"]) (simp add: Iterator_def)
  then have "Iterator_for (Iterator 5 1) ?e \<noteq> None"
    by (simp only: Iterator_for_terminates_iff)
  then obtain ws where r5: "Iterator_for (Iterator 5 1) ?e = Some ws"
    by blast
  have i4: "Iterator_inc (Iterator 4 (1::32 word)) = Iterator 5 1"
    and i3: "Iterator_inc (Iterator 3 (1::32 word)) = Iterator 4 1"
    and i2: "Iterator_inc (Iterator 2 (1::32 word)) = Iterator 3 1"
    by (simp_all add: Iterator_def Iterator_inc_def Iterator_add_def)
  have r4: "Iterator_for (Iterator 4 1) ?e = Some (4 # ws)"
    by (subst Iterator_for_step) (simp_all add: i4 r5, simp_all add: Iterator_def)
  have r3: "Iterator_for (Iterator 3 1) ?e = Some (3 # 4 # ws)"
    by (subst Iterator_for_step) (simp_all add: i3 r4, simp_all add: Iterator_def)
  have r2: "Iterator_for (Iterator 2 1) ?e = Some (2 # 3 # 4 # ws)"
    by (subst Iterator_for_step) (simp_all add: i2 r3, simp_all add: Iterator_def)
  have ex: "\<exists>vs. Iterator_for (Range_rbegin ?r) (Range_rend ?r) = Some (2 # 3 # 4 # vs)"
    unfolding rb re using r2 by blast
  have ne: "Iterator_for (Range_rbegin ?r) (Range_rend ?r) \<noteq> Some (rev [0, 1, 2])"
    unfolding rb re r2 by simp
  have d1: "Range_rbegin ?r = Iterator_dec (Range_end ?r)"
    by (rule Range_rbegin_def)
  have d2: "Range_rend ?r = Iterator_dec (Range_begin ?r)"
    by (rule Range_rend_def)
  from Range_reverse_by_decrement [OF fwd]
  have down: "Iterator_for_down (Range_rbegin ?r) (Range_rend ?r) = Some [2, 1, 0]"
    by simp
  from fwd d1 d2 rb re ex ne down show ?thesis
    by (intro conjI)
qed


section \<open>Properties of zipped sequences\<close>

subsection \<open>The member templates as list operations\<close>

lemma zip_add_idx_map: "zip_add_idx n it = map (\<lambda>s. seq_plus s n) it"
  by (induction it) simp_all


lemma zip_begin_idx_map: "zip_begin_idx cs = map seq_begin cs"
  by (induction cs) simp_all

lemma zip_end_idx_map: "zip_end_idx h cs = map (seq_end h) cs"
  by (induction cs) simp_all

lemma zip_eq_idx_nth:
  "length a = length b \<Longrightarrow> zip_eq_idx a b \<longleftrightarrow> (\<exists>i<length a. seq_eq (a ! i) (b ! i))"
proof (induction a b rule: list_induct2)
  case Nil
  then show ?case by simp
next
  case (Cons x xs y ys)
  have "(\<exists>i<Suc (length xs). seq_eq ((x # xs) ! i) ((y # ys) ! i)) \<longleftrightarrow>
      seq_eq x y \<or> (\<exists>i<length xs. seq_eq (xs ! i) (ys ! i))"
    by (auto simp: less_Suc_eq_0_disj)
  with Cons.IH show ?case by simp
qed

lemma zip_ne_idx_nth:
  "length a = length b \<Longrightarrow> zip_ne_idx a b \<longleftrightarrow> (\<forall>i<length a. seq_ne (a ! i) (b ! i))"
proof (induction a b rule: list_induct2)
  case Nil
  then show ?case by simp
next
  case (Cons x xs y ys)
  have "(\<forall>i<Suc (length xs). seq_ne ((x # xs) ! i) ((y # ys) ! i)) \<longleftrightarrow>
      seq_ne x y \<and> (\<forall>i<length xs. seq_ne (xs ! i) (ys ! i))"
    by (auto simp: less_Suc_eq_0_disj)
  with Cons.IH show ?case by simp
qed

lemma zip_deref_idx_valid:
  "\<forall>s\<in>set it. seq_valid h s \<Longrightarrow>
   zip_deref_idx h it = Inr (map (\<lambda>s. (cont s, nat (pos s))) it)"
  by (induction it) (simp_all add: seq_deref_def)







subsection \<open>The loop over a view\<close>

lemma zip_eq_idx_map:
  "zip_eq_idx (map f cs) (map g cs) \<longleftrightarrow> (\<exists>c\<in>set cs. seq_eq (f c) (g c))"
  by (induction cs) simp_all

lemma zip_ne_at:
  "zip_ne (map (\<lambda>c. \<lparr>cont = c, pos = int k\<rparr>) cs) (zip_end_idx h cs) \<longleftrightarrow>
   (\<forall>c\<in>set cs. k \<noteq> length (h c))"
  by (simp add: zip_ne_def zip_end_idx_map zip_eq_idx_map seq_eq_def seq_end_def)

lemma zip_inc_at:
  "zip_inc (map (\<lambda>c. \<lparr>cont = c, pos = int k\<rparr>) cs) = map (\<lambda>c. \<lparr>cont = c, pos = int (Suc k)\<rparr>) cs"
  by (simp add: zip_inc_def zip_add_def zip_add_idx_map seq_plus_def)

lemma zip_deref_at:
  assumes "\<forall>c\<in>set cs. k < length (h c)"
  shows "zip_deref h (map (\<lambda>c. \<lparr>cont = c, pos = int k\<rparr>) cs) = Inr (map (\<lambda>c. (c, k)) cs)"
proof -
  have "\<forall>s\<in>set (map (\<lambda>c. \<lparr>cont = c, pos = int k\<rparr>) cs). seq_valid h s"
    using assms by (simp add: seq_valid_def)
  then have "zip_deref_idx h (map (\<lambda>c. \<lparr>cont = c, pos = int k\<rparr>) cs) =
      Inr (map (\<lambda>s. (cont s, nat (pos s))) (map (\<lambda>c. \<lparr>cont = c, pos = int k\<rparr>) cs))"
    by (rule zip_deref_idx_valid)
  then show ?thesis
    by (simp add: zip_deref_def comp_def)
qed

lemma zip_iterator_for_at:
  assumes "cs \<noteq> []" and "m = Min ((\<lambda>c. length (h c)) ` set cs)" and "k \<le> m"
  shows "zip_iterator_for h (map (\<lambda>c. \<lparr>cont = c, pos = int k\<rparr>) cs) (zip_end_idx h cs) =
    Some (Inr (map (\<lambda>j. map (\<lambda>c. (c, j)) cs) [k..<m]))"
  using assms(3)
proof (induction "m - k" arbitrary: k)
  case 0
  then have k: "k = m" by simp
  have "m \<in> (\<lambda>c. length (h c)) ` set cs"
    unfolding assms(2) using assms(1) by (intro Min_in) simp_all
  then have "\<not> (\<forall>c\<in>set cs. k \<noteq> length (h c))"
    unfolding k by auto
  then have "\<not> zip_ne (map (\<lambda>c. \<lparr>cont = c, pos = int k\<rparr>) cs) (zip_end_idx h cs)"
    by (simp add: zip_ne_at)
  then show ?case
    by (subst zip_iterator_for.simps) (simp add: k)
next
  case (Suc d)
  then have less: "k < m" and next_le: "Suc k \<le> m" and d: "d = m - Suc k"
    by simp_all
  have bound: "\<forall>c\<in>set cs. m \<le> length (h c)"
    unfolding assms(2) by simp
  with less have valid: "\<forall>c\<in>set cs. k < length (h c)"
    by fastforce
  then have ne: "zip_ne (map (\<lambda>c. \<lparr>cont = c, pos = int k\<rparr>) cs) (zip_end_idx h cs)"
    unfolding zip_ne_at by fastforce
  have rec: "zip_iterator_for h (map (\<lambda>c. \<lparr>cont = c, pos = int (Suc k)\<rparr>) cs) (zip_end_idx h cs) =
      Some (Inr (map (\<lambda>j. map (\<lambda>c. (c, j)) cs) [Suc k..<m]))"
    using d next_le by (rule Suc.hyps(1))
  have upt: "[k..<m] = k # [Suc k..<m]"
    using less by (rule upt_conv_Cons)
  show ?case
    unfolding upt
    by (subst zip_iterator_for.simps) (simp add: ne zip_deref_at [OF valid] zip_inc_at rec del: of_nat_Suc)
qed

lemma zip_for_eq:
  assumes "cs \<noteq> []"
  shows "zip_for h (zip_view cs) =
    Some (Inr (map (\<lambda>k. map (\<lambda>c. (c, k)) cs) [0..<Min ((\<lambda>c. length (h c)) ` set cs)]))"
proof -
  have "zip_begin (zip_view cs) = map (\<lambda>c. \<lparr>cont = c, pos = int 0\<rparr>) cs"
    by (simp add: zip_begin_def zip_view_def zip_begin_idx_map seq_begin_def)
  moreover have "zip_end h (zip_view cs) = zip_end_idx h cs"
    by (simp add: zip_end_def zip_view_def)
  ultimately show ?thesis
    unfolding zip_for_def using zip_iterator_for_at [OF assms refl, of 0 h] by simp
qed

subsection \<open>Comparing zip iterators\<close>

text \<open>
  C2: for two zip iterators of the same arity, \<open>operator==\<close> is true if and only if
  the sub-iterators at some index are equal, and \<open>operator!=\<close> is its exact
  complement: true if and only if the sub-iterators differ at every index. That
  is also what the private \<open>operator!=<Idx>\<close> computes.
\<close>

theorem zip_iterator_equality:
  assumes "length a = length b"
  shows "(zip_eq a b \<longleftrightarrow> (\<exists>i<length a. seq_eq (a ! i) (b ! i))) \<and>
    (zip_ne a b \<longleftrightarrow> \<not> zip_eq a b) \<and>
    (zip_ne a b \<longleftrightarrow> (\<forall>i<length a. \<not> seq_eq (a ! i) (b ! i))) \<and>
    (zip_ne a b \<longleftrightarrow> (\<forall>i<length a. seq_ne (a ! i) (b ! i))) \<and>
    (zip_ne a b \<longleftrightarrow> zip_ne_idx a b)"
proof -
  have eq: "zip_eq a b \<longleftrightarrow> (\<exists>i<length a. seq_eq (a ! i) (b ! i))"
    unfolding zip_eq_def using assms by (rule zip_eq_idx_nth)
  have compl: "zip_ne a b \<longleftrightarrow> \<not> zip_eq a b"
    by (simp add: zip_ne_def zip_eq_def)
  have all: "zip_ne a b \<longleftrightarrow> (\<forall>i<length a. \<not> seq_eq (a ! i) (b ! i))"
    unfolding compl eq by blast
  have all_ne: "zip_ne a b \<longleftrightarrow> (\<forall>i<length a. seq_ne (a ! i) (b ! i))"
    unfolding all seq_ne_def ..
  have priv: "zip_ne a b \<longleftrightarrow> zip_ne_idx a b"
    unfolding all_ne using assms by (rule zip_ne_idx_nth [symmetric])
  from eq compl all all_ne priv show ?thesis
    by (intro conjI)
qed

text \<open>
  C2, an instance: two iterators that differ in the first component and agree in the
  second are equal, and two that differ in both are unequal.
\<close>

theorem zip_iterator_equality_witness:
  "length [\<lparr>cont = 0, pos = 1\<rparr>, \<lparr>cont = 1, pos = 3\<rparr>] =
     length [\<lparr>cont = 0, pos = 2\<rparr>, \<lparr>cont = 1, pos = 3\<rparr>] \<and>
   (1::nat) < length [\<lparr>cont = 0, pos = 1\<rparr>, \<lparr>cont = 1, pos = 3\<rparr>] \<and>
   seq_eq ([\<lparr>cont = 0, pos = 1\<rparr>, \<lparr>cont = 1, pos = 3\<rparr>] ! 1)
     ([\<lparr>cont = 0, pos = 2\<rparr>, \<lparr>cont = 1, pos = 3\<rparr>] ! 1) \<and>
   \<not> seq_eq ([\<lparr>cont = 0, pos = 1\<rparr>, \<lparr>cont = 1, pos = 3\<rparr>] ! 0)
     ([\<lparr>cont = 0, pos = 2\<rparr>, \<lparr>cont = 1, pos = 3\<rparr>] ! 0) \<and>
   zip_eq [\<lparr>cont = 0, pos = 1\<rparr>, \<lparr>cont = 1, pos = 3\<rparr>]
     [\<lparr>cont = 0, pos = 2\<rparr>, \<lparr>cont = 1, pos = 3\<rparr>] \<and>
   \<not> zip_ne [\<lparr>cont = 0, pos = 1\<rparr>, \<lparr>cont = 1, pos = 3\<rparr>]
     [\<lparr>cont = 0, pos = 2\<rparr>, \<lparr>cont = 1, pos = 3\<rparr>] \<and>
   zip_ne [\<lparr>cont = 0, pos = 1\<rparr>, \<lparr>cont = 1, pos = 2\<rparr>]
     [\<lparr>cont = 0, pos = 2\<rparr>, \<lparr>cont = 1, pos = 3\<rparr>]"
proof -
  let ?a = "[\<lparr>cont = 0, pos = 1\<rparr>, \<lparr>cont = 1, pos = 3\<rparr>]"
  let ?b = "[\<lparr>cont = 0, pos = 2\<rparr>, \<lparr>cont = 1, pos = 3\<rparr>]"
  let ?c = "[\<lparr>cont = 0, pos = 1\<rparr>, \<lparr>cont = 1, pos = 2\<rparr>]"
  have len: "length ?a = length ?b" "length ?c = length ?b"
    by simp_all
  have one: "(1::nat) < length ?a" "seq_eq (?a ! 1) (?b ! 1)" "\<not> seq_eq (?a ! 0) (?b ! 0)"
    by (simp_all add: seq_eq_def)
  then have ex: "\<exists>i<length ?a. seq_eq (?a ! i) (?b ! i)"
    by blast
  have "\<forall>i<length ?c. \<not> seq_eq (?c ! i) (?b ! i)"
    by (simp add: seq_eq_def less_Suc_eq)
  with zip_iterator_equality [OF len(2)] have "zip_ne ?c ?b"
    by blast
  moreover from zip_iterator_equality [OF len(1)] ex have "zip_eq ?a ?b" "\<not> zip_ne ?a ?b"
    by blast+
  ultimately show ?thesis
    using len(1) one by (intro conjI)
qed

subsection \<open>Stepping a zip iterator\<close>




subsection \<open>Dereferencing a zip iterator\<close>

text \<open>
  C7: at valid positions, \<open>*\<close> returns one reference per sub-iterator, in argument
  order, the \<open>i\<close>-th obtained by dereferencing the \<open>i\<close>-th sub-iterator; it refers
  to the element of the wrapped sequence at that position, so assigning through it
  changes that element of the sequence and nothing else.
\<close>

theorem zip_deref_references:
  assumes "\<forall>s\<in>set it. seq_valid h s"
  shows "\<exists>rs. zip_deref h it = Inr rs \<and> length rs = length it \<and>
    (\<forall>i<length it.
       seq_deref h (it ! i) = Inr (rs ! i) \<and>
       rs ! i = (cont (it ! i), nat (pos (it ! i))) \<and>
       ref_get h (rs ! i) = h (cont (it ! i)) ! nat (pos (it ! i)) \<and>
       (\<forall>v. ref_get (ref_set h (rs ! i) v) (rs ! i) = v \<and>
          ref_set h (rs ! i) v (cont (it ! i)) = (h (cont (it ! i)))[nat (pos (it ! i)) := v] \<and>
          ref_set h (rs ! i) v (cont (it ! i)) ! nat (pos (it ! i)) = v \<and>
          (\<forall>r. r \<noteq> rs ! i \<longrightarrow> ref_get (ref_set h (rs ! i) v) r = ref_get h r)))"
proof -
  define rs where "rs = map (\<lambda>s. (cont s, nat (pos s))) it"
  have run: "zip_deref h it = Inr rs"
    unfolding zip_deref_def rs_def using assms by (rule zip_deref_idx_valid)
  have len: "length rs = length it"
    by (simp add: rs_def)
  have comps: "\<forall>i<length it.
       seq_deref h (it ! i) = Inr (rs ! i) \<and>
       rs ! i = (cont (it ! i), nat (pos (it ! i))) \<and>
       ref_get h (rs ! i) = h (cont (it ! i)) ! nat (pos (it ! i)) \<and>
       (\<forall>v. ref_get (ref_set h (rs ! i) v) (rs ! i) = v \<and>
          ref_set h (rs ! i) v (cont (it ! i)) = (h (cont (it ! i)))[nat (pos (it ! i)) := v] \<and>
          ref_set h (rs ! i) v (cont (it ! i)) ! nat (pos (it ! i)) = v \<and>
          (\<forall>r. r \<noteq> rs ! i \<longrightarrow> ref_get (ref_set h (rs ! i) v) r = ref_get h r))"
  proof (intro allI impI)
    fix i assume i: "i < length it"
    define c where "c = cont (it ! i)"
    define k where "k = nat (pos (it ! i))"
    from i have "it ! i \<in> set it" by simp
    with assms have valid: "seq_valid h (it ! i)" by blast
    then have "0 \<le> pos (it ! i)" and "pos (it ! i) < int (length (h c))"
      by (simp_all add: seq_valid_def c_def)
    then have k: "k < length (h c)"
      unfolding k_def by linarith
    have r: "rs ! i = (c, k)"
      using i by (simp add: rs_def c_def k_def)
    have d: "seq_deref h (it ! i) = Inr (rs ! i)"
      using valid by (simp add: seq_deref_def r c_def k_def)
    have g: "ref_get h (rs ! i) = h c ! k"
      by (simp add: r ref_get_def)
    have w: "ref_get (ref_set h (rs ! i) v) (rs ! i) = v \<and>
          ref_set h (rs ! i) v c = (h c)[k := v] \<and>
          ref_set h (rs ! i) v c ! k = v \<and>
          (\<forall>r. r \<noteq> rs ! i \<longrightarrow> ref_get (ref_set h (rs ! i) v) r = ref_get h r)" for v
      using k by (auto simp: r ref_get_def ref_set_def)
    from d r g w show "seq_deref h (it ! i) = Inr (rs ! i) \<and>
       rs ! i = (cont (it ! i), nat (pos (it ! i))) \<and>
       ref_get h (rs ! i) = h (cont (it ! i)) ! nat (pos (it ! i)) \<and>
       (\<forall>v. ref_get (ref_set h (rs ! i) v) (rs ! i) = v \<and>
          ref_set h (rs ! i) v (cont (it ! i)) = (h (cont (it ! i)))[nat (pos (it ! i)) := v] \<and>
          ref_set h (rs ! i) v (cont (it ! i)) ! nat (pos (it ! i)) = v \<and>
          (\<forall>r. r \<noteq> rs ! i \<longrightarrow> ref_get (ref_set h (rs ! i) v) r = ref_get h r))"
      unfolding c_def k_def by blast
  qed
  show ?thesis
    by (rule exI [of _ rs]) (intro conjI run len comps)
qed

text \<open>
  C7, an instance: over \<open>[10, 20, 30]\<close> and \<open>[1, 2, 3, 4, 5]\<close>, assigning 99 through
  the first reference of the tuple at positions 1 and 4 turns the first sequence
  into \<open>[10, 99, 30]\<close>.
\<close>

theorem zip_deref_references_witness:
  "seq_valid ((\<lambda>_. [])(0 := [10, 20, 30::nat], 1 := [1, 2, 3, 4, 5])) \<lparr>cont = 0, pos = 1\<rparr> \<and>
   seq_valid ((\<lambda>_. [])(0 := [10, 20, 30::nat], 1 := [1, 2, 3, 4, 5])) \<lparr>cont = 1, pos = 4\<rparr> \<and>
   zip_deref ((\<lambda>_. [])(0 := [10, 20, 30::nat], 1 := [1, 2, 3, 4, 5]))
     [\<lparr>cont = 0, pos = 1\<rparr>, \<lparr>cont = 1, pos = 4\<rparr>] = Inr [(0, 1), (1, 4)] \<and>
   ref_get ((\<lambda>_. [])(0 := [10, 20, 30::nat], 1 := [1, 2, 3, 4, 5])) (0, 1) = 20 \<and>
   ref_set ((\<lambda>_. [])(0 := [10, 20, 30::nat], 1 := [1, 2, 3, 4, 5])) (0, 1) 99 0 = [10, 99, 30] \<and>
   (1, 4) \<noteq> ((0, 1) :: ref) \<and>
   ref_get (ref_set ((\<lambda>_. [])(0 := [10, 20, 30::nat], 1 := [1, 2, 3, 4, 5])) (0, 1) 99) (1, 4) = 5"
proof -
  let ?h = "(\<lambda>_. [])(0::addr := [10, 20, 30::nat], 1 := [1, 2, 3, 4, 5])"
  let ?it = "[\<lparr>cont = 0, pos = 1\<rparr>, \<lparr>cont = 1, pos = 4\<rparr>]"
  have valid: "\<forall>s\<in>set ?it. seq_valid ?h s"
    by (simp add: seq_valid_def)
  from zip_deref_references [OF valid] obtain rs where
    run: "zip_deref ?h ?it = Inr rs" and len: "length rs = length ?it" and
    comps: "\<forall>i<length ?it.
       seq_deref ?h (?it ! i) = Inr (rs ! i) \<and>
       rs ! i = (cont (?it ! i), nat (pos (?it ! i))) \<and>
       ref_get ?h (rs ! i) = ?h (cont (?it ! i)) ! nat (pos (?it ! i)) \<and>
       (\<forall>v. ref_get (ref_set ?h (rs ! i) v) (rs ! i) = v \<and>
          ref_set ?h (rs ! i) v (cont (?it ! i)) = (?h (cont (?it ! i)))[nat (pos (?it ! i)) := v] \<and>
          ref_set ?h (rs ! i) v (cont (?it ! i)) ! nat (pos (?it ! i)) = v \<and>
          (\<forall>r. r \<noteq> rs ! i \<longrightarrow> ref_get (ref_set ?h (rs ! i) v) r = ref_get ?h r))"
    by (elim exE conjE) (rule that)
  have i0: "(0::nat) < length ?it" and i1: "(1::nat) < length ?it"
    by simp_all
  note c0 = comps [THEN spec, THEN mp, OF i0]
  note c1 = comps [THEN spec, THEN mp, OF i1]
  from c0 have r0: "rs ! 0 = (0, 1)"
    by simp
  from c1 have r1: "rs ! 1 = (1, 4)"
    by simp
  from len have "length rs = 2"
    by simp
  then obtain x y where "rs = [x, y]"
    by (metis (no_types, opaque_lifting) One_nat_def Suc_1 length_0_conv length_Suc_conv)
  with r0 r1 have rs: "rs = [(0, 1), (1, 4)]"
    by simp
  from c0 have get: "ref_get ?h (0, 1) = 20"
    unfolding r0 by simp
  from c0 have "\<forall>v. ref_get (ref_set ?h (rs ! 0) v) (rs ! 0) = v \<and>
          ref_set ?h (rs ! 0) v (cont (?it ! 0)) = (?h (cont (?it ! 0)))[nat (pos (?it ! 0)) := v] \<and>
          ref_set ?h (rs ! 0) v (cont (?it ! 0)) ! nat (pos (?it ! 0)) = v \<and>
          (\<forall>r. r \<noteq> rs ! 0 \<longrightarrow> ref_get (ref_set ?h (rs ! 0) v) r = ref_get ?h r)"
    by (elim conjE)
  then have w: "ref_set ?h (rs ! 0) 99 (cont (?it ! 0)) = (?h (cont (?it ! 0)))[nat (pos (?it ! 0)) := 99]"
    and frame: "\<forall>r. r \<noteq> rs ! 0 \<longrightarrow> ref_get (ref_set ?h (rs ! 0) 99) r = ref_get ?h r"
    by blast+
  from w have upd: "ref_set ?h (0, 1) 99 0 = [10, 99, 30]"
    unfolding r0 by simp
  have other: "(1, 4) \<noteq> ((0, 1) :: ref)"
    by simp
  with frame have "ref_get (ref_set ?h (0, 1) 99) (1, 4) = ref_get ?h (1, 4)"
    unfolding r0 by blast
  then have far: "ref_get (ref_set ?h (0, 1) 99) (1, 4) = 5"
    by (simp add: ref_get_def)
  from run have run': "zip_deref ?h ?it = Inr [(0, 1), (1, 4)]"
    unfolding rs .
  from valid have v0: "seq_valid ?h \<lparr>cont = 0, pos = 1\<rparr>" and v1: "seq_valid ?h \<lparr>cont = 1, pos = 4\<rparr>"
    by simp_all
  from v0 v1 run' get upd other far show ?thesis
    by (intro conjI)
qed

subsection \<open>Iterating a view\<close>

text \<open>
  C1: for one or more sequences, the loop over the view from \<open>begin()\<close> to \<open>end()\<close>
  stops after exactly as many positions as the shortest sequence has elements,
  every dereference on the way being inside its sequence (the loop ends without
  the error), and tuple \<open>k\<close> refers to element \<open>k\<close> of every sequence. Over a
  3-element and a 5-element sequence it yields exactly 3 tuples, tuple \<open>i\<close> being
  \<open>(seqA[i], seqB[i])\<close>.
\<close>

theorem zip_for_shortest:
  assumes "cs \<noteq> []"
  shows "(\<exists>ts. zip_for h (zip_view cs) = Some (Inr ts) \<and>
      length ts = Min ((\<lambda>c. length (h c)) ` set cs) \<and>
      ts = map (\<lambda>k. map (\<lambda>c. (c, k)) cs) [0..<Min ((\<lambda>c. length (h c)) ` set cs)] \<and>
      (\<forall>k<length ts. length (ts ! k) = length cs \<and>
         (\<forall>i<length cs. ts ! k ! i = (cs ! i, k) \<and> k < length (h (cs ! i)) \<and>
            ref_get h (ts ! k ! i) = h (cs ! i) ! k))) \<and>
    (cs = [0, 1] \<and> length (h 0) = 3 \<and> length (h 1) = 5 \<longrightarrow>
       zip_for h (zip_view cs) = Some (Inr [[(0, 0), (1, 0)], [(0, 1), (1, 1)], [(0, 2), (1, 2)]]) \<and>
       map (map (ref_get h)) [[(0, 0), (1, 0)], [(0, 1), (1, 1)], [(0, 2), (1, 2)]] =
         [[h 0 ! 0, h 1 ! 0], [h 0 ! 1, h 1 ! 1], [h 0 ! 2, h 1 ! 2]])"
proof -
  define m where "m = Min ((\<lambda>c. length (h c)) ` set cs)"
  define ts where "ts = map (\<lambda>k. map (\<lambda>c. (c, k)) cs) [0..<m]"
  have run: "zip_for h (zip_view cs) = Some (Inr ts)"
    unfolding ts_def m_def using assms by (rule zip_for_eq)
  have len: "length ts = m"
    by (simp add: ts_def)
  have bound: "m \<le> length (h c)" if "c \<in> set cs" for c
    unfolding m_def using that by simp
  have rows: "\<forall>k<length ts. length (ts ! k) = length cs \<and>
         (\<forall>i<length cs. ts ! k ! i = (cs ! i, k) \<and> k < length (h (cs ! i)) \<and>
            ref_get h (ts ! k ! i) = h (cs ! i) ! k)"
  proof (intro allI impI)
    fix k assume "k < length ts"
    then have k: "k < m" by (simp add: len)
    then have row: "ts ! k = map (\<lambda>c. (c, k)) cs"
      by (simp add: ts_def)
    have "ts ! k ! i = (cs ! i, k) \<and> k < length (h (cs ! i)) \<and>
        ref_get h (ts ! k ! i) = h (cs ! i) ! k" if "i < length cs" for i
    proof -
      from that have "cs ! i \<in> set cs" by simp
      then have "m \<le> length (h (cs ! i))" by (rule bound)
      with k have "k < length (h (cs ! i))" by simp
      with that show ?thesis by (simp add: row ref_get_def)
    qed
    then show "length (ts ! k) = length cs \<and>
         (\<forall>i<length cs. ts ! k ! i = (cs ! i, k) \<and> k < length (h (cs ! i)) \<and>
            ref_get h (ts ! k ! i) = h (cs ! i) ! k)"
      by (simp add: row)
  qed
  have def: "ts = map (\<lambda>k. map (\<lambda>c. (c, k)) cs) [0..<m]"
    by (rule ts_def)
  have general: "\<exists>ts. zip_for h (zip_view cs) = Some (Inr ts) \<and>
      length ts = m \<and> ts = map (\<lambda>k. map (\<lambda>c. (c, k)) cs) [0..<m] \<and>
      (\<forall>k<length ts. length (ts ! k) = length cs \<and>
         (\<forall>i<length cs. ts ! k ! i = (cs ! i, k) \<and> k < length (h (cs ! i)) \<and>
            ref_get h (ts ! k ! i) = h (cs ! i) ! k))"
    by (rule exI [of _ ts]) (intro conjI run len def rows)
  have two: "cs = [0, 1] \<and> length (h 0) = 3 \<and> length (h 1) = 5 \<longrightarrow>
       zip_for h (zip_view cs) = Some (Inr [[(0, 0), (1, 0)], [(0, 1), (1, 1)], [(0, 2), (1, 2)]]) \<and>
       map (map (ref_get h)) [[(0, 0), (1, 0)], [(0, 1), (1, 1)], [(0, 2), (1, 2)]] =
         [[h 0 ! 0, h 1 ! 0], [h 0 ! 1, h 1 ! 1], [h 0 ! 2, h 1 ! 2]]"
  proof
    assume shape: "cs = [0, 1] \<and> length (h 0) = 3 \<and> length (h 1) = 5"
    then have "m = 3" by (simp add: m_def)
    moreover have "[0..<3] = [0, 1, 2::nat]" by code_simp
    ultimately have "ts = [[(0, 0), (1, 0)], [(0, 1), (1, 1)], [(0, 2), (1, 2)]]"
      using shape by (simp add: ts_def)
    with run show "zip_for h (zip_view cs) = Some (Inr [[(0, 0), (1, 0)], [(0, 1), (1, 1)], [(0, 2), (1, 2)]]) \<and>
       map (map (ref_get h)) [[(0, 0), (1, 0)], [(0, 1), (1, 1)], [(0, 2), (1, 2)]] =
         [[h 0 ! 0, h 1 ! 0], [h 0 ! 1, h 1 ! 1], [h 0 ! 2, h 1 ! 2]]"
      by (simp add: ref_get_def)
  qed
  from general two show ?thesis
    unfolding m_def by (rule conjI)
qed

text \<open>C1, an instance: \<open>[10, 20, 30]\<close> zipped with \<open>[1, 2, 3, 4, 5]\<close>.\<close>

theorem zip_for_shortest_witness:
  "[0, 1] \<noteq> ([] :: addr list) \<and>
   zip_for ((\<lambda>_. [])(0 := [10, 20, 30::nat], 1 := [1, 2, 3, 4, 5])) (zip_view [0, 1]) =
     Some (Inr [[(0, 0), (1, 0)], [(0, 1), (1, 1)], [(0, 2), (1, 2)]]) \<and>
   map (map (ref_get ((\<lambda>_. [])(0 := [10, 20, 30::nat], 1 := [1, 2, 3, 4, 5]))))
     [[(0, 0), (1, 0)], [(0, 1), (1, 1)], [(0, 2), (1, 2)]] = [[10, 1], [20, 2], [30, 3]]"
proof -
  let ?h = "(\<lambda>_. [])(0::addr := [10, 20, 30::nat], 1 := [1, 2, 3, 4, 5])"
  have ne: "[0, 1] \<noteq> ([] :: addr list)"
    by simp
  have shape: "[0, 1] = [0, 1::addr] \<and> length (?h 0) = 3 \<and> length (?h 1) = 5"
    by simp
  note two = zip_for_shortest [OF ne, of ?h, THEN conjunct2, rule_format, OF shape]
  from two have run: "zip_for ?h (zip_view [0, 1]) =
      Some (Inr [[(0, 0), (1, 0)], [(0, 1), (1, 1)], [(0, 2), (1, 2)]])"
    by (rule conjunct1)
  from two have "map (map (ref_get ?h)) [[(0, 0), (1, 0)], [(0, 1), (1, 1)], [(0, 2), (1, 2)]] =
      [[?h 0 ! 0, ?h 1 ! 0], [?h 0 ! 1, ?h 1 ! 1], [?h 0 ! 2, ?h 1 ! 2]]"
    by (rule conjunct2)
  then have vals: "map (map (ref_get ?h)) [[(0, 0), (1, 0)], [(0, 1), (1, 1)], [(0, 2), (1, 2)]] =
      [[10, 1], [20, 2], [30, 3]]"
    by simp
  from ne run vals show ?thesis
    by (intro conjI)
qed

end
